theory Spec2Isabelle
  imports Complex_Main "HOL-Library.Word" "HOL-Library.Monad_Syntax"
begin

unbundle bit_operations_syntax

section \<open>Machine types and constants of DG8.ino\<close>

text \<open>
  The sketch runs on an Arduino UNO (ATmega328, avr-gcc): \<open>int\<close>, \<open>short\<close> and
  \<open>unsigned int\<close> are 16 bits wide, \<open>unsigned long\<close> is 32 bits wide, the I/O
  registers \<open>PORTD\<close>, \<open>EIMSK\<close>, \<open>TCCR1B\<close> are 8 bits wide and \<open>TCNT1\<close>, \<open>OCR1A\<close>
  are 16 bits wide. Integer arithmetic wraps around (the words of HOL-Library.Word);
  signed values are read with \<open>sint\<close>. \<open>float\<close> and \<open>double\<close> are both IEEE binary32.
\<close>

type_synonym u8 = "8 word"
type_synonym u16 = "16 word"
type_synonym s16 = "16 word"
type_synonym u32 = "32 word"

definition clock :: int where
  "clock = 16000"

definition TimerOffset :: int where
  "TimerOffset = 58"

section \<open>binary32 arithmetic\<close>

text \<open>
  A finite \<open>float\<close> is the rational number it denotes. Every arithmetic operation
  computes the exact result and rounds it to the nearest binary32 value, ties to the
  even significand: 24 significant bits for a normal number (binary exponent
  \<open>-126 .. 127\<close>), multiples of \<open>2^-149\<close> below. A result whose magnitude reaches
  \<open>2^128\<close> is no finite number (\<open>None\<close>): it is an infinity in C, and the only use
  this program makes of its floats ends in a conversion to an integer, which is
  undefined for an infinity.
\<close>

type_synonym f32 = rat

definition pow2 :: "int \<Rightarrow> rat" where
  "pow2 e = (if 0 \<le> e then 2 ^ nat e else 1 / 2 ^ nat (- e))"

definition round_even :: "rat \<Rightarrow> int" where
  "round_even x =
     (let f = \<lfloor>x\<rfloor>; d = x - of_int f
      in if d < 1 / 2 then f else if 1 / 2 < d then f + 1 else if even f then f else f + 1)"

text \<open>
  \<open>f32_expo n e x\<close> looks for the binary exponent of \<open>x\<close> among \<open>e, e + 1, ..., e + n\<close>:
  the first one whose binade ends above \<open>\<bar>x\<bar>\<close>.
\<close>

fun f32_expo :: "nat \<Rightarrow> int \<Rightarrow> rat \<Rightarrow> int" where
  "f32_expo 0 e x = e"
| "f32_expo (Suc n) e x = (if \<bar>x\<bar> < pow2 (e + 1) then e else f32_expo n (e + 1) x)"

definition f32_round :: "rat \<Rightarrow> f32 option" where
  "f32_round x =
     (let q = f32_expo 254 (- 126) x - 23;
          r = of_int (round_even (x / pow2 q)) * pow2 q
      in if \<bar>r\<bar> < pow2 128 then Some r else None)"

text \<open>
  The conversion \<open>(unsigned long) x\<close> truncates towards zero; C defines it only when the
  truncated value is representable, that is for \<open>-1 < x < 2^32\<close>.
\<close>

definition f32_to_u32 :: "f32 \<Rightarrow> u32 option" where
  "f32_to_u32 x =
     (if x \<le> - 1 \<or> 2 ^ 32 \<le> x then None
      else Some (word_of_int (if x < 0 then \<lceil>x\<rceil> else \<lfloor>x\<rfloor>)))"

section \<open>Tick Clock\<close>

text \<open>
  \<^verbatim>\<open>float TicksToMicros(int ticks){ return (float)(ticks + TimerOffset) * 1000.0/clock; }\<close>

  The sum is an \<open>int\<close> sum (16 bits, wrapping), converted to \<open>float\<close>, multiplied by
  \<open>1000.0\<close> and divided by \<open>clock\<close>, each a binary32 operation.
\<close>

definition TicksToMicros :: "s16 \<Rightarrow> f32 option" where
  "TicksToMicros ticks =
     do {
       a \<leftarrow> f32_round (of_int (sint (ticks + word_of_int TimerOffset)));
       b \<leftarrow> f32_round (a * 1000);
       f32_round (b / of_int clock)
     }"

text \<open>
  \<^verbatim>\<open>unsigned long MicrosToTicks(float micro){
     return (unsigned long)(micro * clock/1000.0 +0.5) - TimerOffset; }\<close>

  The product, the quotient and the sum are binary32 operations; the conversion
  truncates; the subtraction is \<open>unsigned long\<close> and wraps modulo \<open>2^32\<close>. Nothing
  restricts the result to the 16 bits of the timer.
\<close>

definition MicrosToTicks :: "f32 \<Rightarrow> u32 option" where
  "MicrosToTicks micro =
     do {
       a \<leftarrow> f32_round (micro * of_int clock);
       b \<leftarrow> f32_round (a / 1000);
       c \<leftarrow> f32_round (b + 1 / 2);
       u \<leftarrow> f32_to_u32 c;
       Some (u - word_of_int TimerOffset)
     }"

section \<open>Program state\<close>

text \<open>
  \<open>Delays\<close> and \<open>DOut\<close> are arrays of ten 16-bit elements. C leaves an access outside
  an array undefined; the model makes every such access the value \<open>None\<close>, which ends
  the operation that performs it. A result \<open>Some\<close> therefore says that the operation
  stayed inside its arrays.
\<close>

definition arr_get :: "'a list \<Rightarrow> int \<Rightarrow> 'a option" where
  "arr_get xs k = (if 0 \<le> k \<and> k < int (length xs) then Some (xs ! nat k) else None)"

definition arr_set :: "'a list \<Rightarrow> int \<Rightarrow> 'a \<Rightarrow> 'a list option" where
  "arr_set xs k v = (if 0 \<le> k \<and> k < int (length xs) then Some (xs[nat k := v]) else None)"

text \<open>
  What the program sends over the serial line. The layout of the table that
  \<open>ListDelays\<close> prints (\<open>_rtxt\<close>, \<open>_ftoa\<close>, \<open>_itoa\<close>, \<open>_itob\<close>) is left out: a row is
  kept as the three values it shows.
\<close>

datatype sent = Header | Row f32 u16 s16 | Text string

text \<open>
  The globals of the sketch (\<open>imax\<close> is \<open>_imax\<close>, \<open>i_cur\<close> is the counter \<open>i\<close>) and the
  registers it uses. \<open>INTF0\<close> is the pending flag of the external interrupt in \<open>EIFR\<close>.
\<close>

record dg =
  Delays :: "u16 list"
  DOut :: "s16 list"
  imax :: s16
  i_cur :: s16
  TCNT1 :: u16
  OCR1A :: u16
  TCCR1B :: u8
  EIMSK :: u8
  INTF0 :: bool
  PORTD :: u8
  tx :: "sent list"

text \<open>
  The built-in example schedule: the initial values of lines 49-52, with the registers
  as the register writes of \<open>setup\<close> leave them (\<open>TCNT1\<close> and \<open>OCR1A\<close> at their reset
  value). \<open>setup\<close> also calls \<open>LoadDelays\<close>, which replaces the schedule by the stored
  one; this is the state without that call.
\<close>

definition builtin :: dg where
  "builtin =
     \<lparr> Delays = [13, 75, 149, 228, 0, 0, 0, 0, 0, 0],
       DOut = [248, 0, 248, 0, 0, 0, 0, 0, 0, 0],
       imax = 4, i_cur = 0, TCNT1 = 0, OCR1A = 0, TCCR1B = 0, EIMSK = 1,
       INTF0 = False, PORTD = 4, tx = [] \<rparr>"

section \<open>Sequencer and Trigger Arbiter\<close>

text \<open>
  \<^verbatim>\<open>ISR(TIMER1_COMPA_vect){ PORTD = DOut[i]; OCR1A = Delays[++i]; }\<close>
\<close>

definition TIMER1_COMPA_vect :: "dg \<Rightarrow> dg option" where
  "TIMER1_COMPA_vect s =
     do {
       p \<leftarrow> arr_get (DOut s) (sint (i_cur s));
       let i' = i_cur s + 1;
       d \<leftarrow> arr_get (Delays s) (sint i');
       Some (s\<lparr>PORTD := ucast p, i_cur := i', OCR1A := d\<rparr>)
     }"

text \<open>
  \<^verbatim>\<open>ISR (INT0_vect){ EIMSK = B00000000; TCCR1B = B00000001; }\<close>
\<close>

definition INT0_vect :: "dg \<Rightarrow> dg" where
  "INT0_vect s = s\<lparr>EIMSK := 0, TCCR1B := 1\<rparr>"

text \<open>
  The external interrupt of the ATmega328: a rising edge on the trigger pin sets
  \<open>INTF0\<close>; while \<open>INTF0\<close> is set and bit 0 of \<open>EIMSK\<close> is set, the handler runs and the
  flag is cleared.
\<close>

definition service_INT0 :: "dg \<Rightarrow> dg" where
  "service_INT0 s = (if INTF0 s \<and> EIMSK s AND 1 \<noteq> 0 then INT0_vect (s\<lparr>INTF0 := False\<rparr>) else s)"

definition trigger_edge :: "dg \<Rightarrow> dg" where
  "trigger_edge s = service_INT0 (s\<lparr>INTF0 := True\<rparr>)"

text \<open>
  Timer 1 in normal mode: it counts one tick per clock cycle while \<open>TCCR1B\<close> selects
  the undivided clock, and a compare match with \<open>OCR1A\<close> runs the handler. The result
  says whether the handler ran.
\<close>

definition timer_tick :: "dg \<Rightarrow> (dg \<times> bool) option" where
  "timer_tick s =
     (if TCCR1B s = 1 then
        (let s1 = s\<lparr>TCNT1 := TCNT1 s + 1\<rparr>
         in if TCNT1 s1 = OCR1A s1 then map_option (\<lambda>s2. (s2, True)) (TIMER1_COMPA_vect s1)
            else Some (s1, False))
      else Some (s, False))"

text \<open>
  The body of \<open>loop\<close> in three parts: lines 97-101 arm the trigger, line 102 waits,
  line 103 stops the timer.
  \<^verbatim>\<open>TCNT1 = 0; i=0; OCR1A = Delays[0]; EIFR = 1; EIMSK = B00000001;\<close>
  \<^verbatim>\<open>while (i<_imax){}\<close>
  \<^verbatim>\<open>TCCR1B = B00000000;\<close>
\<close>

definition loop_arm :: "dg \<Rightarrow> dg option" where
  "loop_arm s =
     do {
       d \<leftarrow> arr_get (Delays s) 0;
       Some (service_INT0 (s\<lparr>TCNT1 := 0, i_cur := 0, OCR1A := d, INTF0 := False, EIMSK := 1\<rparr>))
     }"

definition loop_waiting :: "dg \<Rightarrow> bool" where
  "loop_waiting s = (i_cur s <s imax s)"

definition loop_stop :: "dg \<Rightarrow> dg" where
  "loop_stop s = s\<lparr>TCCR1B := 0\<rparr>"

text \<open>
  One look of the foreground program at the state, with no serial command waiting:
  it stays in the \<open>while\<close> of line 102, or leaves it, stops the timer and arms the
  trigger for the next cycle.
\<close>

definition foreground :: "dg \<Rightarrow> dg option" where
  "foreground s = (if loop_waiting s then Some s else loop_arm (loop_stop s))"

text \<open>
  The simulated hardware of the sequencing test: \<open>simulate n t s\<close> runs \<open>n\<close> timer ticks
  from the state \<open>s\<close> reached at tick \<open>t\<close>, the foreground program looking at the state
  after every tick. The trace lists every run of the compare-match handler: the tick,
  the value it wrote to \<open>PORTD\<close> and the counter \<open>i\<close> it left.
\<close>

fun simulate :: "nat \<Rightarrow> nat \<Rightarrow> dg \<Rightarrow> ((nat \<times> u8 \<times> s16) list \<times> dg) option" where
  "simulate 0 t s = Some ([], s)"
| "simulate (Suc n) t s =
     do {
       (s1, fired) \<leftarrow> timer_tick s;
       s2 \<leftarrow> foreground s1;
       (tr, s3) \<leftarrow> simulate n (Suc t) s2;
       Some ((if fired then [(Suc t, PORTD s1, i_cur s1)] else []) @ tr, s3)
     }"

text \<open>
  The events of the trigger-arming state machine: a rising edge on the trigger pin,
  a timer tick, a look of the foreground program.
\<close>

datatype event = Edge | Tick | Poll

definition step :: "event \<Rightarrow> dg \<Rightarrow> dg option" where
  "step ev s =
     (case ev of
        Edge \<Rightarrow> Some (trigger_edge s)
      | Tick \<Rightarrow> map_option fst (timer_tick s)
      | Poll \<Rightarrow> foreground s)"

fun run :: "event list \<Rightarrow> dg \<Rightarrow> dg option" where
  "run [] s = Some s"
| "run (ev # evs) s = step ev s \<bind> run evs"

text \<open>
  \<open>rearmed evs s\<close>: somewhere in the run of \<open>evs\<close> from \<open>s\<close> the foreground program
  found the sequence complete (the \<open>while\<close> of line 102 ended) and armed the trigger.
\<close>

fun rearmed :: "event list \<Rightarrow> dg \<Rightarrow> bool" where
  "rearmed [] s = False"
| "rearmed (ev # evs) s =
     ((ev = Poll \<and> \<not> loop_waiting s) \<or>
      (case step ev s of None \<Rightarrow> False | Some s' \<Rightarrow> rearmed evs s'))"

section \<open>Delay List\<close>

text \<open>
  Every command handler runs between \<open>cli()\<close> and \<open>sei()\<close>, with the interrupts off:
  a handler is one step from state to state.

  \<^verbatim>\<open>for (j=0; j<_imax; j++){ ... TicksToMicros(Delays[j]) ... Delays[j] ... DOut[j] ... }\<close>

  \<open>ListDelays\<close> prints a header, one row for each of the first \<open>_imax\<close> entries and an
  empty line. It changes nothing but the serial output.
\<close>

function list_rows :: "dg \<Rightarrow> int \<Rightarrow> sent list option" where
  "list_rows s j =
     (if j < sint (imax s) then
        do {
          d \<leftarrow> arr_get (Delays s) j;
          m \<leftarrow> TicksToMicros d;
          p \<leftarrow> arr_get (DOut s) j;
          rows \<leftarrow> list_rows s (j + 1);
          Some (Row m d p # rows)
        }
      else Some [])"
  by pat_completeness auto
termination
  by (relation "measure (\<lambda>(s, j). nat (sint (imax s) - j))") auto

definition ListDelays :: "dg \<Rightarrow> dg option" where
  "ListDelays s =
     do {
       rows \<leftarrow> list_rows s 0;
       Some (s\<lparr>tx := tx s @ [Header] @ rows @ [Text []]\<rparr>)
     }"

text \<open>
  A C string is the characters of the token followed by a terminating zero; reading
  behind the zero is reading outside the string.
\<close>

definition cstr_get :: "string \<Rightarrow> nat \<Rightarrow> char option" where
  "cstr_get cs n =
     (if n < length cs then Some (cs ! n) else if n = length cs then Some (CHR 0x00) else None)"

text \<open>The value of a \<open>char\<close>, which avr-gcc reads as a signed byte.\<close>

definition schar :: "char \<Rightarrow> int" where
  "schar c = sint (of_char c :: 8 word)"

text \<open>
  \<^verbatim>\<open>for (int k=a; k<=_imax; k++){ Delays[k] = Delays[k+1]; DOut[k] = DOut[k+1];}\<close>
\<close>

function clear_shift :: "u16 list \<Rightarrow> s16 list \<Rightarrow> int \<Rightarrow> int \<Rightarrow> (u16 list \<times> s16 list) option" where
  "clear_shift ds ps k n =
     (if k \<le> n then
        do {
          d \<leftarrow> arr_get ds (k + 1);
          ds' \<leftarrow> arr_set ds k d;
          p \<leftarrow> arr_get ps (k + 1);
          ps' \<leftarrow> arr_set ps k p;
          clear_shift ds' ps' (k + 1) n
        }
      else Some (ds, ps))"
  by pat_completeness auto
termination
  by (relation "measure (\<lambda>(ds, ps, k, n). nat (n + 1 - k))") auto

text \<open>
  \<^verbatim>\<open>memset(DOut,0,9); memset(Delays,0,9);\<close>

  Nine bytes are cleared: the first four elements and, the ATmega328 storing the low
  byte first, the low byte of the fifth.
\<close>

definition memset_0_9 :: "16 word list \<Rightarrow> 16 word list" where
  "memset_0_9 xs = xs[0 := 0, 1 := 0, 2 := 0, 3 := 0, 4 := (xs ! 4) AND 0xFF00]"

text \<open>
  \<open>ClearDelay\<close>, lines 143-165. The argument is the next token of the command line,
  \<open>None\<close> when there is none (\<open>sCmd.next()\<close> returns \<open>NULL\<close>).
\<close>

definition ClearDelay :: "string option \<Rightarrow> dg \<Rightarrow> dg option" where
  "ClearDelay arg s =
     do {
       s1 \<leftarrow>
         (case arg of
            Some cs \<Rightarrow>
              do {
                c \<leftarrow> cstr_get cs 0;
                let a = schar c - 65;
                if a < sint (imax s) \<and> 0 \<le> a then
                  do {
                    (ds, ps) \<leftarrow> clear_shift (Delays s) (DOut s) a (sint (imax s));
                    Some (s\<lparr>Delays := ds, DOut := ps, imax := imax s - 1\<rparr>)
                  }
                else Some (s\<lparr>tx := tx s @ [Text ''Not in range'']\<rparr>)
              }
          | None \<Rightarrow>
              Some (s\<lparr>DOut := memset_0_9 (DOut s), Delays := memset_0_9 (Delays s), imax := 0\<rparr>));
       ListDelays s1
     }"

text \<open>
  \<^verbatim>\<open>while (_ldelay > Delays[j]) {j++;}\<close>

  The comparison is between \<open>unsigned long\<close> values. The loop has no bound of its own:
  it ends at the first element that is not below \<open>_ldelay\<close>, or leaves the array.
\<close>

function find_pos :: "u32 \<Rightarrow> u16 list \<Rightarrow> int \<Rightarrow> int option" where
  "find_pos ldelay ds j =
     (case arr_get ds j of
        None \<Rightarrow> None
      | Some d \<Rightarrow> if ucast d < ldelay then find_pos ldelay ds (j + 1) else Some j)"
  by pat_completeness auto
termination
  by (relation "measure (\<lambda>(ldelay, ds, j). nat (int (length ds) - j))")
    (auto simp: arr_get_def split: if_splits)

text \<open>
  \<^verbatim>\<open>while (_ldelay > Delays[j]) {j++;}
  if (j > _imax) j = _imax;\<close>
\<close>

definition insert_index :: "u32 \<Rightarrow> dg \<Rightarrow> int option" where
  "insert_index ldelay s =
     do {
       j0 \<leftarrow> find_pos ldelay (Delays s) 0;
       Some (if sint (imax s) < j0 then sint (imax s) else j0)
     }"

text \<open>
  \<^verbatim>\<open>for (k=_imax; k>=j; k--) Delays[k] = Delays[k-1];\<close>
\<close>

function shift_up :: "'a list \<Rightarrow> int \<Rightarrow> int \<Rightarrow> 'a list option" where
  "shift_up xs k j =
     (if j \<le> k then
        do {
          v \<leftarrow> arr_get xs (k - 1);
          xs' \<leftarrow> arr_set xs k v;
          shift_up xs' (k - 1) j
        }
      else Some xs)"
  by pat_completeness auto
termination
  by (relation "measure (\<lambda>(xs, k, j). nat (k + 1 - j))") auto

text \<open>
  \<^verbatim>\<open>for (k=7; k>=3; k--) _dout |= (*(++arg) != '0') << k;\<close>
\<close>

function parse_binary :: "string \<Rightarrow> int \<Rightarrow> s16 \<Rightarrow> s16 option" where
  "parse_binary cs k dout =
     (if 3 \<le> k then
        do {
          c \<leftarrow> cstr_get cs (nat (8 - k));
          parse_binary cs (k - 1) (dout OR push_bit (nat k) (if c \<noteq> CHR ''0'' then 1 else 0))
        }
      else Some dout)"
  by pat_completeness auto
termination
  by (relation "measure (\<lambda>(cs, k, dout). nat (k - 2))") auto

text \<open>
  The C library's \<open>atoi\<close>: white space, an optional sign, decimal digits; the value is
  reduced to the 16 bits of an \<open>int\<close>.
\<close>

definition is_space :: "char \<Rightarrow> bool" where
  "is_space c = (c = CHR '' '' \<or> (9 \<le> (of_char c :: nat) \<and> (of_char c :: nat) \<le> 13))"

fun digits :: "string \<Rightarrow> int \<Rightarrow> int" where
  "digits [] acc = acc"
| "digits (c # cs) acc =
     (if 48 \<le> (of_char c :: nat) \<and> (of_char c :: nat) \<le> 57
      then digits cs (10 * acc + (of_char c - 48)) else acc)"

definition atoi :: "string \<Rightarrow> s16" where
  "atoi cs =
     (case dropWhile is_space cs of
        [] \<Rightarrow> 0
      | c # r \<Rightarrow>
          if c = CHR ''-'' then word_of_int (- digits r 0)
          else if c = CHR ''+'' then word_of_int (digits r 0)
          else word_of_int (digits (c # r) 0))"

text \<open>
  \<open>SetDelay\<close>, lines 167-198. The first argument is the value \<open>atof\<close> returns for the
  first token (\<open>None\<close> when there is no token), the second argument is the second
  token as it stands.
\<close>

definition SetDelay :: "f32 option \<Rightarrow> string option \<Rightarrow> dg \<Rightarrow> dg option" where
  "SetDelay arg1 arg2 s =
     do {
       s1 \<leftarrow>
         (case arg1 of
            Some micro \<Rightarrow>
              do {
                ldelay \<leftarrow> MicrosToTicks micro;
                j \<leftarrow> insert_index ldelay s;
                ds1 \<leftarrow> shift_up (Delays s) (sint (imax s)) j;
                ds2 \<leftarrow> arr_set ds1 j (ucast ldelay);
                dout \<leftarrow>
                  (case arg2 of
                     Some cs \<Rightarrow>
                       if cstr_get cs 0 = Some CHR ''B'' then parse_binary cs 7 0
                       else Some (0 + atoi cs)
                   | None \<Rightarrow> map_option (\<lambda>p. 255 - p) (arr_get (DOut s) (j - 1)));
                ps1 \<leftarrow> shift_up (DOut s) (sint (imax s)) j;
                ps2 \<leftarrow> arr_set ps1 j (dout OR 4);
                Some (s\<lparr>Delays := ds2, DOut := ps2, imax := imax s + 1\<rparr>)
              }
          | None \<Rightarrow> Some (s\<lparr>tx := tx s @ [Text ''Missing delay parameter'']\<rparr>));
       ListDelays s1
     }"

section \<open>Persistence\<close>

text \<open>
  Modelled from the spec: \<open>EEPROM_writeAnything\<close> and \<open>EEPROM_readAnything\<close> come from
  the library header \<open>EEPROM_anything.h\<close>, which is not part of the sketch. The spec
  gives the layout they produce: fields of 16 bits at a fixed base offset. The store
  is a map from byte addresses to bytes, a field is stored low byte first.
\<close>

type_synonym eeprom = "nat \<Rightarrow> u8"

definition EEPROM_writeAnything :: "eeprom \<Rightarrow> nat \<Rightarrow> 16 word \<Rightarrow> eeprom" where
  "EEPROM_writeAnything ee pos v = ee(pos := ucast v, pos + 1 := ucast (drop_bit 8 v))"

definition EEPROM_readAnything :: "eeprom \<Rightarrow> nat \<Rightarrow> 16 word" where
  "EEPROM_readAnything ee pos = ucast (ee pos) OR push_bit 8 (ucast (ee (pos + 1)))"

text \<open>
  \<^verbatim>\<open>for (int j=0; j<_imax; j++){
     EEPROM_writeAnything(pos, Delays[j]); pos+=2;
     EEPROM_writeAnything(pos, DOut[j]); pos+=2; }\<close>
\<close>

function save_loop :: "dg \<Rightarrow> eeprom \<Rightarrow> int \<Rightarrow> nat \<Rightarrow> eeprom option" where
  "save_loop s ee j pos =
     (if j < sint (imax s) then
        do {
          d \<leftarrow> arr_get (Delays s) j;
          p \<leftarrow> arr_get (DOut s) j;
          save_loop s (EEPROM_writeAnything (EEPROM_writeAnything ee pos d) (pos + 2) p)
            (j + 1) (pos + 4)
        }
      else Some ee)"
  by pat_completeness auto
termination
  by (relation "measure (\<lambda>(s, ee, j, pos). nat (sint (imax s) - j))") auto

definition SaveDelays :: "dg \<Rightarrow> eeprom \<Rightarrow> eeprom option" where
  "SaveDelays s ee = save_loop s (EEPROM_writeAnything ee 0 (imax s)) 0 2"

text \<open>
  \<^verbatim>\<open>EEPROM_readAnything(pos, _imax); pos +=2;
  for (int j=0; j<_imax; j++){
     EEPROM_readAnything(pos, Delays[j]); pos+=2;
     EEPROM_readAnything(pos, DOut[j]); pos+=2; }\<close>
\<close>

function load_loop ::
  "eeprom \<Rightarrow> int \<Rightarrow> u16 list \<Rightarrow> s16 list \<Rightarrow> int \<Rightarrow> nat \<Rightarrow> (u16 list \<times> s16 list) option" where
  "load_loop ee n ds ps j pos =
     (if j < n then
        do {
          ds' \<leftarrow> arr_set ds j (EEPROM_readAnything ee pos);
          ps' \<leftarrow> arr_set ps j (EEPROM_readAnything ee (pos + 2));
          load_loop ee n ds' ps' (j + 1) (pos + 4)
        }
      else Some (ds, ps))"
  by pat_completeness auto
termination
  by (relation "measure (\<lambda>(ee, n, ds, ps, j, pos). nat (n - j))") auto

definition LoadDelays :: "eeprom \<Rightarrow> dg \<Rightarrow> dg option" where
  "LoadDelays ee s =
     (let n = EEPROM_readAnything ee 0
      in do {
           (ds, ps) \<leftarrow> load_loop ee (sint n) (Delays s) (DOut s) 0 2;
           Some (s\<lparr>imax := n, Delays := ds, DOut := ps\<rparr>)
         })"

section \<open>Predicates of the claims\<close>

text \<open>The number of active entries, \<open>_imax\<close> as a natural number.\<close>

definition count :: "dg \<Rightarrow> nat" where
  "count s = nat (sint (imax s))"


definition ascending :: "dg \<Rightarrow> bool" where
  "ascending s = sorted (take (count s) (Delays s))"

text \<open>
  A valid list: both arrays have their ten elements, \<open>_imax\<close> lies between 0 and 10,
  and the active tick offsets ascend.
\<close>

definition valid_list :: "dg \<Rightarrow> bool" where
  "valid_list s =
     (length (Delays s) = 10 \<and> length (DOut s) = 10 \<and>
      0 \<le> sint (imax s) \<and> sint (imax s) \<le> 10 \<and> ascending s)"




text \<open>A list with all ten entries in use.\<close>

definition full_list :: dg where
  "full_list =
     builtin\<lparr>Delays := [10, 20, 30, 40, 50, 60, 70, 80, 90, 100],
             DOut := [252, 4, 252, 4, 252, 4, 252, 4, 252, 4], imax := 10\<rparr>"


text \<open>
  The trigger interrupt is masked: bit 0 of \<open>EIMSK\<close> is clear. \<open>INT0_vect\<close> leaves the
  state so when it accepts an edge, and only line 101 of \<open>loop\<close> sets the bit again.
\<close>

definition masked :: "dg \<Rightarrow> bool" where
  "masked s = (EIMSK s AND 1 = 0)"

text \<open>The state without the pending flag of the trigger interrupt.\<close>

definition unflagged :: "dg \<Rightarrow> dg" where
  "unflagged s = s\<lparr>INTF0 := False\<rparr>"

text \<open>
  Two states are alike when they are equal, or the trigger interrupt is masked and
  they differ in the pending flag only.
\<close>

definition alike :: "dg \<Rightarrow> dg \<Rightarrow> bool" where
  "alike s t = (s = t \<or> (masked s \<and> t = s\<lparr>INTF0 := INTF0 t\<rparr>))"

text \<open>
  The list that lines 179-180 (and 189-191) leave: \<open>v\<close> at index \<open>j\<close>, the elements
  from \<open>j\<close> to \<open>n - 1\<close> moved one slot up, the others as they were.
\<close>

definition inserted :: "'a list \<Rightarrow> int \<Rightarrow> int \<Rightarrow> 'a \<Rightarrow> nat \<Rightarrow> 'a" where
  "inserted xs n j v m =
     (if int m = j then v else if j < int m \<and> int m \<le> n then xs ! (m - 1) else xs ! m)"

text \<open>The equations of the loops are unfolded one step at a time, where a proof asks for it.\<close>

declare list_rows.simps [simp del] clear_shift.simps [simp del] find_pos.simps [simp del]
  shift_up.simps [simp del] parse_binary.simps [simp del] save_loop.simps [simp del]
  load_loop.simps [simp del]

section \<open>Properties of the binary32 model\<close>

lemma pow2_powi: "pow2 e = 2 powi e"
  by (simp add: pow2_def power_int_def field_simps)


lemma round_even_of_int: "round_even (of_int m) = m"
  by (simp add: round_even_def)

lemma f32_expo_bounds: "e \<le> f32_expo n e x \<and> f32_expo n e x \<le> e + int n"
proof (induction n arbitrary: e)
  case 0
  then show ?case by simp
next
  case (Suc n)
  from Suc [of "e + 1"] show ?case by auto
qed

lemma f32_expo_lower: "e < f32_expo n e x \<Longrightarrow> pow2 (f32_expo n e x) \<le> \<bar>x\<bar>"
proof (induction n arbitrary: e)
  case 0
  then show ?case by simp
next
  case (Suc n)
  show ?case
  proof (cases "\<bar>x\<bar> < pow2 (e + 1)")
    case True
    with Suc.prems show ?thesis by simp
  next
    case False
    show ?thesis
    proof (cases "e + 1 < f32_expo n (e + 1) x")
      case True
      with Suc.IH [of "e + 1"] False show ?thesis by simp
    next
      case False
      with f32_expo_bounds [of "e + 1" n x] have "f32_expo n (e + 1) x = e + 1" by simp
      with \<open>\<not> \<bar>x\<bar> < pow2 (e + 1)\<close> show ?thesis by simp
    qed
  qed
qed

lemma pow2_less_iff: "pow2 a < pow2 b \<longleftrightarrow> a < b"
  unfolding pow2_powi
  by (metis less_irrefl linorder_less_linear one_less_numeral_iff order_less_trans power_int_strict_increasing semiring_norm(76))

lemma pow2_le_iff: "pow2 a \<le> pow2 b \<longleftrightarrow> a \<le> b"
  using pow2_less_iff [of b a] by (simp add: not_less [symmetric])

lemma pow2_24: "pow2 24 = 2 ^ 24"
  by (simp add: pow2_def)

lemma pow2_add: "pow2 (a + b) = pow2 a * pow2 b"
  by (simp add: pow2_powi power_int_add)

lemma pow2_diff: "pow2 (a - b) = pow2 a / pow2 b"
  by (simp add: pow2_powi power_int_diff)

lemma pow2_nat: "0 \<le> e \<Longrightarrow> pow2 e = of_int (2 ^ nat e)"
  by (simp add: pow2_def)

lemma pow2_pos: "0 < pow2 e"
  by (simp add: pow2_def)

lemma f32_round_exact:
  assumes x: "x = of_int k * pow2 j" and k: "\<bar>k\<bar> < 2 ^ 24" and j: "- 149 \<le> j" "j \<le> 104"
  shows "f32_round x = Some x"
proof -
  define e where "e = f32_expo 254 (- 126) x"
  define q where "q = e - 23"
  have kr: "\<bar>of_int k :: rat\<bar> < 2 ^ 24"
    using k by (metis of_int_abs of_int_less_numeral_power_cancel_iff)
  have absx: "\<bar>x\<bar> = \<bar>of_int k\<bar> * pow2 j"
    using pow2_pos [of j] by (simp add: x abs_mult)
  have qj: "q \<le> j"
  proof (cases "- 126 < e")
    case True
    then have "pow2 e \<le> \<bar>x\<bar>"
      unfolding e_def by (rule f32_expo_lower)
    also have "\<dots> < 2 ^ 24 * pow2 j"
      unfolding absx using kr pow2_pos [of j] by (simp add: mult_strict_right_mono)
    also have "\<dots> = pow2 (24 + j)"
      by (simp only: pow2_add pow2_24)
    finally have "e < 24 + j" by (simp add: pow2_less_iff)
    then show ?thesis by (simp add: q_def)
  next
    case False
    with f32_expo_bounds [of "- 126" 254 x] have "e = - 126" by (simp add: e_def)
    with j show ?thesis by (simp add: q_def)
  qed
  have "x / pow2 q = of_int k * pow2 (j - q)"
    by (simp add: x pow2_diff)
  also have "\<dots> = of_int (k * 2 ^ nat (j - q))"
    using qj by (simp add: pow2_nat)
  finally have quot: "x / pow2 q = of_int (k * 2 ^ nat (j - q))" .
  have r: "of_int (round_even (x / pow2 q)) * pow2 q = x"
    unfolding quot round_even_of_int using quot pow2_pos [of q] by (simp add: field_simps)
  have "\<bar>x\<bar> < 2 ^ 24 * pow2 j"
    unfolding absx using kr pow2_pos [of j] by (simp add: mult_strict_right_mono)
  also have "\<dots> = pow2 (24 + j)"
    by (simp only: pow2_add pow2_24)
  also have "\<dots> \<le> pow2 128"
    using j by (simp add: pow2_le_iff)
  finally have "\<bar>x\<bar> < pow2 128" .
  with r show ?thesis
    by (simp add: f32_round_def Let_def e_def [symmetric] q_def [symmetric])
qed

section \<open>Properties of the Tick Clock\<close>

lemma f32_round_int: "\<bar>k\<bar> < 2 ^ 24 \<Longrightarrow> f32_round (of_int k) = Some (of_int k)"
  by (rule f32_round_exact [where k = k and j = 0]) (simp_all add: pow2_def)

lemma f32_round_int_1000:
  assumes "\<bar>k\<bar> \<le> 134217"
  shows "f32_round (of_int k * 1000) = Some (of_int k * 1000)"
proof (rule f32_round_exact [where k = "125 * k" and j = 3])
  show "\<bar>125 * k\<bar> < 2 ^ 24" using assms by (simp add: abs_mult)
qed (simp_all add: pow2_def)

lemma f32_round_sixteenth:
  "\<bar>k\<bar> < 2 ^ 24 \<Longrightarrow> f32_round (of_int k / 16) = Some (of_int k / 16)"
  by (rule f32_round_exact [where k = k and j = "- 4"]) (simp_all add: pow2_def)

lemma f32_round_plus_half:
  assumes "\<bar>k\<bar> < 2 ^ 22"
  shows "f32_round (of_int k + 1 / 2) = Some (of_int k + 1 / 2)"
proof (rule f32_round_exact [where k = "2 * k + 1" and j = "- 1"])
  show "\<bar>2 * k + 1\<bar> < 2 ^ 24" using assms by simp
qed (simp_all add: pow2_def field_simps)

lemma TicksToMicros_eq:
  "TicksToMicros ticks = Some (of_int (sint (ticks + 58)) / 16)"
proof -
  define n where "n = sint (ticks + 58)"
  have "- (2 ^ 15) \<le> n" "n < 2 ^ 15"
    using sint_range_size [of "ticks + 58"] by (simp_all add: n_def word_size)
  then have b: "\<bar>n\<bar> < 2 ^ 24" "\<bar>n\<bar> \<le> 134217" by simp_all
  have q: "rat_of_int n * 1000 / 16000 = rat_of_int n / 16" by simp
  show ?thesis
    using f32_round_int [OF b(1)] f32_round_int_1000 [OF b(2)] f32_round_sixteenth [OF b(1)]
    by (simp add: TicksToMicros_def TimerOffset_def clock_def n_def [symmetric])
qed

lemma MicrosToTicks_grid:
  assumes "0 \<le> n" "n \<le> 134217"
  shows "MicrosToTicks (of_int n / 16) = Some (word_of_int n - 58)"
proof -
  from assms have b: "\<bar>n\<bar> < 2 ^ 24" "\<bar>n\<bar> \<le> 134217" "\<bar>n\<bar> < 2 ^ 22" by simp_all
  have m: "rat_of_int n / 16 * 16000 = rat_of_int n * 1000" by simp
  have fl: "\<lfloor>rat_of_int n + 1 / 2\<rfloor> = n" by linarith
  have c: "f32_to_u32 (rat_of_int n + 1 / 2) = Some (word_of_int n)"
    using assms by (simp add: f32_to_u32_def fl)
  have a: "f32_round (1000 * rat_of_int n) = Some (1000 * rat_of_int n)"
    using f32_round_int_1000 [OF b(2)] by (simp add: mult.commute)
  show ?thesis
    using a f32_round_int [OF b(1)] f32_round_plus_half [OF b(3)] c
    by (simp add: MicrosToTicks_def TimerOffset_def clock_def)
qed

lemma sint_low:
  fixes ticks :: "16 word"
  assumes "uint ticks \<le> 32709"
  shows "sint (ticks + 58) = uint ticks + 58"
proof -
  have "uint (ticks + 58) = uint ticks + 58"
    using assms by (simp add: uint_word_ariths)
  then show ?thesis
    using assms by (simp add: sint_uint signed_take_bit_int_eq_self_iff)
qed

lemma roundtrip_low:
  assumes "ticks \<le> 32709"
  shows "Option.bind (TicksToMicros ticks) MicrosToTicks = Some (ucast ticks)"
proof -
  have u: "uint ticks \<le> 32709" using assms by (simp add: word_le_def)
  have s: "sint (ticks + 58) = uint ticks + 58"
    using u by (rule sint_low)
  have "0 \<le> uint ticks" by simp
  have w: "(word_of_int (uint ticks + 58) :: 32 word) - 58 = ucast ticks"
    by simp
  have t: "TicksToMicros ticks = Some (of_int (uint ticks + 58) / 16)"
    by (simp only: TicksToMicros_eq s)
  have m: "MicrosToTicks (of_int (uint ticks + 58) / 16) = Some (word_of_int (uint ticks + 58) - 58)"
    using u by (intro MicrosToTicks_grid) simp_all
  show ?thesis
    by (simp only: t m w bind.bind_lunit)
qed






lemma MicrosToTicks_negative:
  assumes "n \<le> - 2" "- 134217 \<le> n"
  shows "MicrosToTicks (of_int n / 16) = None"
proof -
  from assms have b: "\<bar>n\<bar> < 2 ^ 24" "\<bar>n\<bar> \<le> 134217" "\<bar>n\<bar> < 2 ^ 22" by simp_all
  have a: "f32_round (rat_of_int n / 16 * 16000) = Some (1000 * rat_of_int n)"
    using f32_round_int_1000 [OF b(2)] by (simp add: mult.commute)
  have q: "f32_round (1000 * rat_of_int n / 1000) = Some (rat_of_int n)"
    using f32_round_int [OF b(1)] by simp
  have h: "f32_round (rat_of_int n + 1 / 2) = Some (rat_of_int n + 1 / 2)"
    by (rule f32_round_plus_half [OF b(3)])
  have "rat_of_int n + 1 / 2 \<le> - 1"
  proof -
    have "rat_of_int n \<le> - 2" using assms(1) by (metis of_int_le_iff of_int_minus of_int_numeral)
    then show ?thesis by simp
  qed
  then have c: "f32_to_u32 (rat_of_int n + 1 / 2) = None"
    by (simp add: f32_to_u32_def)
  show ?thesis
    by (simp only: MicrosToTicks_def clock_def of_int_numeral a q h c bind.bind_lunit bind.bind_lzero)
qed

lemma sint_high:
  fixes ticks :: "16 word"
  assumes "32710 \<le> uint ticks" "uint ticks \<le> 65476"
  shows "sint (ticks + 58) = uint ticks + 58 - 65536"
proof -
  have u: "uint (ticks + 58) = uint ticks + 58"
    using assms by (simp add: uint_word_ariths)
  have "sint (ticks + 58) = signed_take_bit 15 (uint ticks + 58)"
    by (simp add: sint_uint u)
  also have "\<dots> = signed_take_bit 15 (uint ticks + 58 - 65536)"
    using signed_take_bit_add [of 15 "uint ticks + 58" "- 65536"] by simp
  also have "\<dots> = uint ticks + 58 - 65536"
    using assms by (simp add: signed_take_bit_int_eq_self_iff)
  finally show ?thesis .
qed

lemma roundtrip_high:
  assumes "32710 \<le> ticks" "ticks \<le> 65476"
  shows "Option.bind (TicksToMicros ticks) MicrosToTicks = None"
proof -
  have u: "32710 \<le> uint ticks" "uint ticks \<le> 65476"
    using assms by (simp_all add: word_le_def)
  have s: "sint (ticks + 58) = uint ticks + 58 - 65536"
    using u by (rule sint_high)
  have t: "TicksToMicros ticks = Some (of_int (uint ticks + 58 - 65536) / 16)"
    by (simp only: TicksToMicros_eq s)
  have m: "MicrosToTicks (of_int (uint ticks + 58 - 65536) / 16) = None"
    using u by (intro MicrosToTicks_negative) simp_all
  show ?thesis
    by (simp only: t m bind.bind_lunit)
qed

text \<open>
  Claim C4 at the tick value 47942, which \<open>MicrosToTicks\<close> returns for a delay of 3000
  microseconds. \<open>TicksToMicros\<close> takes its argument as an \<open>int\<close>: 47942 is read as
  -17594 and the result is -1096 microseconds. \<open>MicrosToTicks\<close> of that converts a
  negative \<open>float\<close> to \<open>unsigned long\<close>, which C leaves undefined: the round trip does
  not give 47942 back. The round trip holds for the tick values up to 32709
  (\<open>roundtrip_low\<close>) and is undefined from 32710 to 65476 (\<open>roundtrip_high\<close>).
\<close>

theorem roundtrip_fails_at_47942:
  "TicksToMicros 47942 = Some (- 1096) \<and> MicrosToTicks (- 1096) = None \<and>
   MicrosToTicks 3000 = Some 47942"
proof -
  have "TicksToMicros 47942 = Some (- 1096)"
    by (simp add: TicksToMicros_eq)
  moreover have "MicrosToTicks (of_int (- 17536) / 16) = None"
    by (rule MicrosToTicks_negative) simp_all
  moreover have "MicrosToTicks (of_int 48000 / 16) = Some (word_of_int 48000 - 58)"
    by (rule MicrosToTicks_grid) simp_all
  ultimately show ?thesis by simp
qed

section \<open>Properties of the Sequencer\<close>

lemma simulate_add:
  "simulate (a + b) t s =
     simulate a t s \<bind> (\<lambda>(tr1, s1). simulate b (t + a) s1 \<bind> (\<lambda>(tr2, s2). Some (tr1 @ tr2, s2)))"
proof (induction a arbitrary: t s)
  case 0
  show ?case by (cases "simulate b t s") auto
next
  case (Suc a)
  show ?case
    by (simp add: Suc.IH split: bind_splits prod.splits)
qed

lemma simulate_idle:
  "TCCR1B s \<noteq> 1 \<Longrightarrow> loop_waiting s \<Longrightarrow> simulate n t s = Some ([], s)"
  by (induction n arbitrary: t) (simp_all add: timer_tick_def foreground_def)

lemma loop_arm_builtin: "loop_arm builtin = Some (builtin\<lparr>OCR1A := 13\<rparr>)"
  by (simp add: loop_arm_def builtin_def arr_get_def service_INT0_def)

lemma simulate_builtin_228:
  "simulate 228 0 (trigger_edge (builtin\<lparr>OCR1A := 13\<rparr>)) =
     Some ([(13, 248, 1), (75, 0, 2), (149, 248, 3), (228, 0, 4)],
           builtin\<lparr>OCR1A := 13, PORTD := 0\<rparr>)"
  by code_simp

text \<open>
  Claim C1. The built-in schedule is armed by \<open>loop\<close> (the compare register then holds
  13) and triggered at tick 0. Whatever number \<open>n \<ge> 228\<close> of ticks is simulated, the
  compare-match handler has run exactly four times: at tick 13 it wrote
  \<open>0b11111000 = 248\<close>, at tick 75 it wrote 0, at tick 149 it wrote 248, at tick 228 it
  wrote 0 and left the counter \<open>i\<close> at 4, which is \<open>_imax\<close>. The run ends in the state
  the foreground program leaves after it has stopped the timer (\<open>TCCR1B = 0\<close>) and
  armed the trigger again.
\<close>

theorem sequencing_builtin:
  assumes "228 \<le> n"
  shows "loop_arm builtin = Some (builtin\<lparr>OCR1A := 13\<rparr>) \<and>
         simulate n 0 (trigger_edge (builtin\<lparr>OCR1A := 13\<rparr>)) =
           Some ([(13, 248, 1), (75, 0, 2), (149, 248, 3), (228, 0, 4)],
                 builtin\<lparr>OCR1A := 13, PORTD := 0\<rparr>) \<and>
         imax builtin = 4 \<and> TCCR1B (builtin\<lparr>OCR1A := 13, PORTD := 0\<rparr>) = 0"
proof -
  have idle: "simulate (n - 228) 228 (builtin\<lparr>OCR1A := 13, PORTD := 0\<rparr>) =
      Some ([], builtin\<lparr>OCR1A := 13, PORTD := 0\<rparr>)"
    by (rule simulate_idle) (simp_all add: builtin_def loop_waiting_def word_sless_alt)
  have "simulate (228 + (n - 228)) 0 (trigger_edge (builtin\<lparr>OCR1A := 13\<rparr>)) =
      Some ([(13, 248, 1), (75, 0, 2), (149, 248, 3), (228, 0, 4)],
            builtin\<lparr>OCR1A := 13, PORTD := 0\<rparr>)"
    unfolding simulate_add simulate_builtin_228 by (simp add: idle)
  moreover have "228 + (n - 228) = n" using assms by simp
  ultimately show ?thesis
    by (simp add: loop_arm_builtin) (simp add: builtin_def)
qed

theorem sequencing_builtin_witness:
  "simulate 1000 0 (trigger_edge (builtin\<lparr>OCR1A := 13\<rparr>)) =
     Some ([(13, 248, 1), (75, 0, 2), (149, 248, 3), (228, 0, 4)],
           builtin\<lparr>OCR1A := 13, PORTD := 0\<rparr>)"
  using sequencing_builtin [of 1000] by simp

lemma sint_succ:
  fixes w :: "16 word"
  assumes "0 \<le> sint w" "sint w < 32767"
  shows "sint (w + 1) = sint w + 1"
proof -
  have "sint (w + 1) = signed_take_bit 15 (sint w + 1)"
    by (simp add: sint_word_ariths)
  also have "\<dots> = sint w + 1"
    using assms by (simp add: signed_take_bit_int_eq_self_iff)
  finally show ?thesis .
qed

text \<open>
  Claim C2, as the code has it. The handler has no test of \<open>i\<close> against \<open>_imax\<close>: as
  long as its two reads stay inside the arrays it writes the low byte of \<open>DOut[i]\<close> to
  \<open>PORTD\<close>, increments \<open>i\<close> and loads \<open>OCR1A\<close> with \<open>Delays[i]\<close> at the incremented
  \<open>i\<close>, whatever \<open>_imax\<close> is.
\<close>

theorem compare_match_handler:
  assumes "length (Delays s) = 10" "length (DOut s) = 10"
    and "0 \<le> sint (i_cur s)" "sint (i_cur s) < 9"
  shows "TIMER1_COMPA_vect s =
           Some (s\<lparr>PORTD := ucast (DOut s ! nat (sint (i_cur s))),
                   i_cur := i_cur s + 1,
                   OCR1A := Delays s ! nat (sint (i_cur s) + 1)\<rparr>)"
  using assms by (simp add: TIMER1_COMPA_vect_def arr_get_def sint_succ Let_def)

theorem compare_match_handler_witness:
  "TIMER1_COMPA_vect (builtin\<lparr>i_cur := 3, OCR1A := 228\<rparr>) =
     Some (builtin\<lparr>i_cur := 4, OCR1A := 0, PORTD := 0\<rparr>)"
  using compare_match_handler [of "builtin\<lparr>i_cur := 3, OCR1A := 228\<rparr>"]
  by (simp add: builtin_def)

text \<open>
  Claim C2 as stated fails at the last entry of the built-in schedule: \<open>i\<close> is 3 and
  \<open>OCR1A\<close> is 228 when the handler starts; it leaves \<open>i = 4\<close>, which is not below
  \<open>_imax = 4\<close>, and yet \<open>OCR1A\<close> has been loaded with \<open>Delays[4] = 0\<close>.
\<close>

theorem compare_match_reprograms_at_end:
  "TIMER1_COMPA_vect (builtin\<lparr>i_cur := 3, OCR1A := 228\<rparr>) =
     Some (builtin\<lparr>i_cur := 4, OCR1A := 0, PORTD := 0\<rparr>) \<and>
   \<not> (i_cur (builtin\<lparr>i_cur := 4, OCR1A := 0, PORTD := 0\<rparr>)
        <s imax (builtin\<lparr>i_cur := 4, OCR1A := 0, PORTD := 0\<rparr>)) \<and>
   OCR1A (builtin\<lparr>i_cur := 4, OCR1A := 0, PORTD := 0\<rparr>) \<noteq>
     OCR1A (builtin\<lparr>i_cur := 3, OCR1A := 228\<rparr>)"
  by (simp add: TIMER1_COMPA_vect_def arr_get_def builtin_def word_sless_alt)

section \<open>Properties of the Trigger Arbiter\<close>

lemma masked_INT0_vect: "masked (INT0_vect s)"
  by (simp add: masked_def INT0_vect_def)

lemma trigger_edge_masked: "masked s \<Longrightarrow> trigger_edge s = s\<lparr>INTF0 := True\<rparr>"
  by (simp add: trigger_edge_def service_INT0_def masked_def)

lemma alike_step:
  assumes "alike s t"
  shows "rel_option alike (step ev s) (step ev t)"
proof (cases "s = t")
  case True
  then show ?thesis by (simp add: option.rel_refl alike_def)
next
  case False
  with assms have m: "masked s" and t: "t = s\<lparr>INTF0 := INTF0 t\<rparr>"
    by (auto simp: alike_def)
  obtain b where tb: "t = s\<lparr>INTF0 := b\<rparr>" using t by blast
  show ?thesis
  proof (cases ev)
    case Edge
    then show ?thesis using m
      by (simp add: step_def tb trigger_edge_def service_INT0_def masked_def alike_def)
  next
    case Tick
    then show ?thesis using m
      by (auto simp: step_def tb timer_tick_def TIMER1_COMPA_vect_def masked_def alike_def Let_def
          split: bind_splits option.splits)
  next
    case Poll
    then show ?thesis using m
      by (auto simp: step_def tb foreground_def loop_waiting_def loop_arm_def loop_stop_def
          service_INT0_def masked_def alike_def split: bind_splits)
  qed
qed

lemma alike_run: "alike s t \<Longrightarrow> rel_option alike (run evs s) (run evs t)"
proof (induction evs arbitrary: s t)
  case Nil
  then show ?case by simp
next
  case (Cons ev evs)
  from alike_step [OF Cons.prems, of ev] show ?case
    by (cases "step ev s"; cases "step ev t") (simp_all add: Cons.IH)
qed

lemma alike_unflagged: "alike s t \<Longrightarrow> unflagged s = unflagged t"
  by (auto simp: alike_def unflagged_def) (metis dg.update_convs(9) dg.surjective)

lemma masked_step:
  assumes "masked s" "step ev s = Some s'" "\<not> (ev = Poll \<and> \<not> loop_waiting s)"
  shows "masked s'"
proof (cases ev)
  case Edge
  with assms show ?thesis
    by (auto simp: step_def trigger_edge_def service_INT0_def masked_def)
next
  case Tick
  with assms show ?thesis
    by (auto simp: step_def timer_tick_def TIMER1_COMPA_vect_def masked_def Let_def
        split: if_splits bind_splits)
next
  case Poll
  with assms show ?thesis
    by (auto simp: step_def foreground_def)
qed

lemma masked_until_rearmed:
  "masked s \<Longrightarrow> run evs s = Some s' \<Longrightarrow> \<not> masked s' \<Longrightarrow> rearmed evs s"
proof (induction evs arbitrary: s)
  case Nil
  then show ?case by simp
next
  case (Cons ev evs)
  from Cons.prems(2) obtain s1 where s1: "step ev s = Some s1" and r: "run evs s1 = Some s'"
    by (auto split: bind_splits)
  show ?case
  proof (cases "ev = Poll \<and> \<not> loop_waiting s")
    case True
    then show ?thesis by simp
  next
    case False
    with Cons.prems(1) s1 have m1: "masked s1" by (rule masked_step)
    from m1 r Cons.prems(3) have "rearmed evs s1" by (rule Cons.IH)
    with s1 show ?thesis by simp
  qed
qed

text \<open>
  Claim C3. Let the trigger interrupt be masked in \<open>s\<close>, as it is from the moment
  \<open>INT0_vect\<close> accepts an edge. A further edge then sets the pending flag and nothing
  else: the counter \<open>i\<close>, \<open>TCNT1\<close>, \<open>TCCR1B\<close>, \<open>OCR1A\<close> and the output are as they were.
  Whatever events follow, the run after the edge and the run without it either both
  end undefined or end in states that differ at most in that flag. And when the run
  ends in a state whose trigger interrupt is enabled again, the foreground program has
  on the way found the \<open>while\<close> of line 102 finished and armed the trigger.
\<close>

theorem no_retrigger:
  assumes "masked s"
  shows "trigger_edge s = s\<lparr>INTF0 := True\<rparr> \<and>
         rel_option (\<lambda>a b. unflagged a = unflagged b) (run evs (trigger_edge s)) (run evs s) \<and>
         (\<forall>s'. run evs (trigger_edge s) = Some s' \<and> \<not> masked s' \<longrightarrow>
               rearmed evs (trigger_edge s))"
proof -
  have e: "trigger_edge s = s\<lparr>INTF0 := True\<rparr>"
    using assms by (rule trigger_edge_masked)
  have "alike (trigger_edge s) s"
    using assms by (simp add: e alike_def masked_def)
  then have "rel_option alike (run evs (trigger_edge s)) (run evs s)"
    by (rule alike_run)
  then have r: "rel_option (\<lambda>a b. unflagged a = unflagged b) (run evs (trigger_edge s)) (run evs s)"
    by (rule option.rel_mono_strong) (rule alike_unflagged)
  have "masked (trigger_edge s)"
    using assms by (simp add: e masked_def)
  then have "\<forall>s'. run evs (trigger_edge s) = Some s' \<and> \<not> masked s' \<longrightarrow>
      rearmed evs (trigger_edge s)"
    by (blast intro: masked_until_rearmed)
  with e r show ?thesis by blast
qed

theorem no_retrigger_witness:
  "masked (INT0_vect (builtin\<lparr>i_cur := 3, OCR1A := 228, TCNT1 := 227\<rparr>)) \<and>
   run [Tick, Poll] (trigger_edge (INT0_vect (builtin\<lparr>i_cur := 3, OCR1A := 228, TCNT1 := 227\<rparr>))) =
     Some (builtin\<lparr>OCR1A := 13, PORTD := 0\<rparr>) \<and>
   run [Tick, Poll] (INT0_vect (builtin\<lparr>i_cur := 3, OCR1A := 228, TCNT1 := 227\<rparr>)) =
     Some (builtin\<lparr>OCR1A := 13, PORTD := 0\<rparr>) \<and>
   \<not> masked (builtin\<lparr>OCR1A := 13, PORTD := 0\<rparr>) \<and>
   rearmed [Tick, Poll] (trigger_edge (INT0_vect (builtin\<lparr>i_cur := 3, OCR1A := 228, TCNT1 := 227\<rparr>)))"
proof -
  have m: "masked (INT0_vect (builtin\<lparr>i_cur := 3, OCR1A := 228, TCNT1 := 227\<rparr>))"
    by (rule masked_INT0_vect)
  have r1: "run [Tick, Poll] (trigger_edge (INT0_vect (builtin\<lparr>i_cur := 3, OCR1A := 228, TCNT1 := 227\<rparr>))) =
      Some (builtin\<lparr>OCR1A := 13, PORTD := 0\<rparr>)"
    by code_simp
  have r2: "run [Tick, Poll] (INT0_vect (builtin\<lparr>i_cur := 3, OCR1A := 228, TCNT1 := 227\<rparr>)) =
      Some (builtin\<lparr>OCR1A := 13, PORTD := 0\<rparr>)"
    by code_simp
  have u: "\<not> masked (builtin\<lparr>OCR1A := 13, PORTD := 0\<rparr>)"
    by (simp add: masked_def builtin_def)
  from no_retrigger [OF m, of "[Tick, Poll]"] r1 u
  have "rearmed [Tick, Poll] (trigger_edge (INT0_vect (builtin\<lparr>i_cur := 3, OCR1A := 228, TCNT1 := 227\<rparr>)))"
    by blast
  with m r1 r2 u show ?thesis by blast
qed

section \<open>Properties of the Delay List\<close>

lemma arr_get_Some: "arr_get xs k = Some v \<longleftrightarrow> 0 \<le> k \<and> k < int (length xs) \<and> v = xs ! nat k"
  by (auto simp: arr_get_def)

lemma arr_set_Some: "arr_set xs k v = Some ys \<longleftrightarrow> 0 \<le> k \<and> k < int (length xs) \<and> ys = xs[nat k := v]"
  by (auto simp: arr_set_def)

lemma list_rows_total:
  assumes "sint (imax s) \<le> int (length (Delays s))" "sint (imax s) \<le> int (length (DOut s))" "0 \<le> j"
  shows "\<exists>rows. list_rows s j = Some rows"
  using assms
proof (induction s j rule: list_rows.induct)
  case (1 s j)
  show ?case
  proof (cases "j < sint (imax s)")
    case True
    then have g: "arr_get (Delays s) j = Some (Delays s ! nat j)" "arr_get (DOut s) j = Some (DOut s ! nat j)"
      using "1.prems" by (simp_all add: arr_get_def)
    from "1.IH" [OF True g(1) TicksToMicros_eq g(2)] "1.prems"
    obtain rows where "list_rows s (j + 1) = Some rows" by auto
    then show ?thesis
      using True g by (subst list_rows.simps) (simp add: TicksToMicros_eq)
  next
    case False
    then show ?thesis by (subst list_rows.simps) simp
  qed
qed

lemma ListDelays_Some:
  "ListDelays s = Some s' \<Longrightarrow> \<exists>out. s' = s\<lparr>tx := out\<rparr>"
  by (auto simp: ListDelays_def split: bind_splits)

lemma ListDelays_total:
  assumes "sint (imax s) \<le> int (length (Delays s))" "sint (imax s) \<le> int (length (DOut s))"
  shows "\<exists>out. ListDelays s = Some (s\<lparr>tx := out\<rparr>)"
  using list_rows_total [OF assms, of 0] by (auto simp: ListDelays_def)

lemma find_pos_Some:
  assumes "find_pos ld ds j = Some j0" "0 \<le> j"
  shows "j \<le> j0 \<and> j0 < int (length ds) \<and>
         (\<forall>k. j \<le> k \<and> k < j0 \<longrightarrow> ucast (ds ! nat k) < ld) \<and> \<not> ucast (ds ! nat j0) < ld"
  using assms
proof (induction ld ds j rule: find_pos.induct)
  case (1 ld ds j)
  from "1.prems"(1) obtain d where d: "arr_get ds j = Some d"
    by (subst (asm) find_pos.simps) (auto split: option.splits)
  then have j: "j < int (length ds)" and dv: "d = ds ! nat j"
    by (simp_all add: arr_get_Some)
  show ?case
  proof (cases "ucast d < ld")
    case True
    with "1.prems"(1) d have "find_pos ld ds (j + 1) = Some j0"
      by (subst (asm) find_pos.simps) simp
    from "1.IH" [OF d True this] "1.prems"(2)
    have ih: "j + 1 \<le> j0" "j0 < int (length ds)"
      "\<forall>k. j + 1 \<le> k \<and> k < j0 \<longrightarrow> ucast (ds ! nat k) < ld" "\<not> ucast (ds ! nat j0) < ld"
      by auto
    have "ucast (ds ! nat k) < ld" if "j \<le> k" "k < j0" for k
    proof (cases "k = j")
      case True
      with \<open>ucast d < ld\<close> dv show ?thesis by simp
    next
      case False
      with that ih(3) show ?thesis by auto
    qed
    with ih show ?thesis by auto
  next
    case False
    with "1.prems"(1) d have "j0 = j"
      by (subst (asm) find_pos.simps) simp
    with False dv j show ?thesis by auto
  qed
qed

lemma shift_up_Some:
  assumes "shift_up xs k j = Some ys"
  shows "length ys = length xs \<and> (j \<le> k \<longrightarrow> 1 \<le> j \<and> k < int (length xs)) \<and>
         (\<forall>m. ys ! m = (if j \<le> int m \<and> int m \<le> k then xs ! (m - 1) else xs ! m))"
  using assms
proof (induction xs k j arbitrary: ys rule: shift_up.induct)
  case (1 xs k j)
  show ?case
  proof (cases "j \<le> k")
    case False
    with "1.prems" have "ys = xs" by (subst (asm) shift_up.simps) simp
    with False show ?thesis by auto
  next
    case True
    with "1.prems" obtain v xs' where v: "arr_get xs (k - 1) = Some v"
      and xs': "arr_set xs k v = Some xs'" and r: "shift_up xs' (k - 1) j = Some ys"
      by (subst (asm) shift_up.simps) (auto split: bind_splits)
    from v have k1: "1 \<le> k" "k - 1 < int (length xs)" and vv: "v = xs ! nat (k - 1)"
      by (simp_all add: arr_get_Some)
    from xs' have kl: "k < int (length xs)" and xv: "xs' = xs[nat k := v]"
      by (simp_all add: arr_set_Some)
    from "1.IH" [OF True v xs' r]
    have ih: "length ys = length xs'" "j \<le> k - 1 \<longrightarrow> 1 \<le> j \<and> k - 1 < int (length xs')"
      "\<And>m. ys ! m = (if j \<le> int m \<and> int m \<le> k - 1 then xs' ! (m - 1) else xs' ! m)"
      by auto
    have j1: "1 \<le> j"
    proof (cases "j \<le> k - 1")
      case True with ih(2) show ?thesis by simp
    next
      case False with \<open>j \<le> k\<close> have "j = k" by simp
      with k1 show ?thesis by simp
    qed
    have nth: "ys ! m = (if j \<le> int m \<and> int m \<le> k then xs ! (m - 1) else xs ! m)" for m
    proof -
      consider "int m = k" | "j \<le> int m" "int m \<le> k - 1" | "int m < j" | "k < int m"
        by linarith
      then show ?thesis
      proof cases
        case 1
        then have "m = nat k" by simp
        with 1 True kl k1 show ?thesis
          by (simp add: ih(3) xv vv nat_diff_distrib)
      next
        case 2
        then have "m - 1 \<noteq> nat k" "m \<noteq> nat k" using j1 k1 by linarith+
        with 2 show ?thesis by (simp add: ih(3) xv)
      next
        case 3
        then have "m \<noteq> nat k" using True k1 by linarith
        with 3 show ?thesis by (simp add: ih(3) xv)
      next
        case 4
        then have "m \<noteq> nat k" using k1 by linarith
        with 4 show ?thesis by (simp add: ih(3) xv)
      qed
    qed
    from ih(1) xv j1 kl nth show ?thesis by simp
  qed
qed


lemma ucast_less_u32:
  fixes d :: "16 word" and ld :: "32 word"
  shows "ucast d < ld \<longleftrightarrow> uint d < uint ld"
  by (simp add: word_less_def uint_up_ucast is_up)

lemma not_ucast_less_bound:
  fixes d :: "16 word" and ld :: "32 word"
  assumes "\<not> ucast d < ld"
  shows "uint ld < 2 ^ 16" "uint (ucast ld :: 16 word) = uint ld"
proof -
  have "uint ld \<le> uint d" using assms by (simp add: ucast_less_u32)
  moreover have "uint d < 2 ^ 16" using uint_lt2p [of d] by simp
  ultimately show "uint ld < 2 ^ 16" by simp
  then show "uint (ucast ld :: 16 word) = uint ld"
    by (simp add: unsigned_ucast_eq take_bit_int_eq_self)
qed

lemma insert_index_Some:
  assumes "insert_index ld s = Some j" "0 \<le> sint (imax s)"
  shows "0 \<le> j \<and> j \<le> sint (imax s) \<and>
         (\<forall>k. 0 \<le> k \<and> k < j \<longrightarrow> uint (Delays s ! nat k) < uint ld) \<and>
         (j < sint (imax s) \<longrightarrow> uint ld \<le> uint (Delays s ! nat j)) \<and>
         uint (ucast ld :: 16 word) = uint ld"
proof -
  from assms(1) obtain j0 where f: "find_pos ld (Delays s) 0 = Some j0"
    and j: "j = (if sint (imax s) < j0 then sint (imax s) else j0)"
    by (auto simp: insert_index_def split: bind_splits)
  from find_pos_Some [OF f] have p: "0 \<le> j0"
    "\<forall>k. 0 \<le> k \<and> k < j0 \<longrightarrow> ucast (Delays s ! nat k) < ld"
    "\<not> ucast (Delays s ! nat j0) < ld"
    by auto
  from p(2) have q: "\<forall>k. 0 \<le> k \<and> k < j0 \<longrightarrow> uint (Delays s ! nat k) < uint ld"
    by (simp add: ucast_less_u32)
  from p(3) have r: "uint ld \<le> uint (Delays s ! nat j0)"
    by (simp add: ucast_less_u32)
  show ?thesis
    using p(1) q r assms(2) not_ucast_less_bound(2) [OF p(3)] by (auto simp: j)
qed

lemma shift_up_set:
  assumes "shift_up xs n j = Some ys" "arr_set ys j v = Some zs"
  shows "length zs = length xs \<and> (j \<le> n \<longrightarrow> 1 \<le> j \<and> n < int (length xs)) \<and>
         (\<forall>m < length xs. zs ! m = inserted xs n j v m)"
proof -
  from shift_up_Some [OF assms(1)] have s: "length ys = length xs"
    "j \<le> n \<longrightarrow> 1 \<le> j \<and> n < int (length xs)"
    "\<And>m. ys ! m = (if j \<le> int m \<and> int m \<le> n then xs ! (m - 1) else xs ! m)"
    by auto
  from assms(2) have z: "0 \<le> j" "j < int (length ys)" "zs = ys[nat j := v]"
    by (simp_all add: arr_set_Some)
  have "zs ! m = inserted xs n j v m" if "m < length xs" for m
  proof (cases "int m = j")
    case True
    then have "m = nat j" by simp
    moreover have "nat j < length ys" using z by linarith
    ultimately show ?thesis using True by (simp add: inserted_def z(3))
  next
    case False
    then have "m \<noteq> nat j" using z(1) by linarith
    with False show ?thesis by (auto simp: inserted_def z(3) s(3))
  qed
  with s z show ?thesis by simp
qed

lemma SetDelay_Some:
  assumes "SetDelay (Some micro) arg2 s = Some s'"
  shows "\<exists>ld j dout out.
           MicrosToTicks micro = Some ld \<and> insert_index ld s = Some j \<and>
           (arg2 = None \<longrightarrow> 1 \<le> j \<and> j - 1 < int (length (DOut s)) \<and> dout = 255 - DOut s ! nat (j - 1)) \<and>
           length (Delays s') = length (Delays s) \<and> length (DOut s') = length (DOut s) \<and>
           0 \<le> j \<and> j < int (length (Delays s)) \<and> j < int (length (DOut s)) \<and>
           (j \<le> sint (imax s) \<longrightarrow> 1 \<le> j \<and> sint (imax s) < int (length (Delays s)) \<and>
              sint (imax s) < int (length (DOut s))) \<and>
           (\<forall>m < length (Delays s). Delays s' ! m = inserted (Delays s) (sint (imax s)) j (ucast ld) m) \<and>
           (\<forall>m < length (DOut s). DOut s' ! m = inserted (DOut s) (sint (imax s)) j (dout OR 4) m) \<and>
           imax s' = imax s + 1 \<and>
           s' = s\<lparr>Delays := Delays s', DOut := DOut s', imax := imax s + 1, tx := out\<rparr>"
proof -
  from assms obtain s1 where s1: "ListDelays s1 = Some s'"
    and b: "(do {
                ldelay \<leftarrow> MicrosToTicks micro;
                j \<leftarrow> insert_index ldelay s;
                ds1 \<leftarrow> shift_up (Delays s) (sint (imax s)) j;
                ds2 \<leftarrow> arr_set ds1 j (ucast ldelay);
                dout \<leftarrow>
                  (case arg2 of
                     Some cs \<Rightarrow>
                       if cstr_get cs 0 = Some CHR ''B'' then parse_binary cs 7 0
                       else Some (0 + atoi cs)
                   | None \<Rightarrow> map_option (\<lambda>p. 255 - p) (arr_get (DOut s) (j - 1)));
                ps1 \<leftarrow> shift_up (DOut s) (sint (imax s)) j;
                ps2 \<leftarrow> arr_set ps1 j (dout OR 4);
                Some (s\<lparr>Delays := ds2, DOut := ps2, imax := imax s + 1\<rparr>)
              }) = Some s1"
    by (auto simp: SetDelay_def split: bind_splits)
  from b obtain ld j ds1 ds2 dout ps1 ps2 where
    ld: "MicrosToTicks micro = Some ld" and j: "insert_index ld s = Some j"
    and ds1: "shift_up (Delays s) (sint (imax s)) j = Some ds1"
    and ds2: "arr_set ds1 j (ucast ld) = Some ds2"
    and dout: "(case arg2 of
                     Some cs \<Rightarrow>
                       if cstr_get cs 0 = Some CHR ''B'' then parse_binary cs 7 0
                       else Some (0 + atoi cs)
                   | None \<Rightarrow> map_option (\<lambda>p. 255 - p) (arr_get (DOut s) (j - 1))) = Some dout"
    and ps1: "shift_up (DOut s) (sint (imax s)) j = Some ps1"
    and ps2: "arr_set ps1 j (dout OR 4) = Some ps2"
    and s1v: "s1 = s\<lparr>Delays := ds2, DOut := ps2, imax := imax s + 1\<rparr>"
    by (auto split: bind_splits)
  from ListDelays_Some [OF s1] obtain out where s': "s' = s1\<lparr>tx := out\<rparr>" by blast
  note D = shift_up_set [OF ds1 ds2]
  note P = shift_up_set [OF ps1 ps2]
  from ds2 shift_up_Some [OF ds1] have jb: "0 \<le> j" "j < int (length (Delays s))"
    by (simp_all add: arr_set_Some)
  from ps2 shift_up_Some [OF ps1] have jp: "j < int (length (DOut s))"
    by (simp_all add: arr_set_Some)
  have n: "arg2 = None \<longrightarrow> 1 \<le> j \<and> j - 1 < int (length (DOut s)) \<and> dout = 255 - DOut s ! nat (j - 1)"
    using dout by (auto simp: arr_get_Some)
  show ?thesis
    apply (rule exI [of _ ld], rule exI [of _ j], rule exI [of _ dout], rule exI [of _ out])
    using ld j n D P jb jp by (simp add: s' s1v)
qed





lemma sint_pred:
  fixes w :: "16 word"
  assumes "0 < sint w"
  shows "sint (w - 1) = sint w - 1"
proof -
  have "sint w < 2 ^ 15" using sint_lt [of w] by simp
  have "sint (w - 1) = signed_take_bit 15 (sint w - 1)"
    by (simp add: sint_word_ariths)
  also have "\<dots> = sint w - 1"
    using assms \<open>sint w < 2 ^ 15\<close> by (simp add: signed_take_bit_int_eq_self_iff)
  finally show ?thesis .
qed

lemma clear_shift_Some:
  assumes "clear_shift ds ps k n = Some (ds', ps')"
  shows "length ds' = length ds \<and> length ps' = length ps \<and>
         (k \<le> n \<longrightarrow> 0 \<le> k \<and> n + 1 < int (length ds) \<and> n + 1 < int (length ps)) \<and>
         (\<forall>m. ds' ! m = (if k \<le> int m \<and> int m \<le> n then ds ! (m + 1) else ds ! m)) \<and>
         (\<forall>m. ps' ! m = (if k \<le> int m \<and> int m \<le> n then ps ! (m + 1) else ps ! m))"
  using assms
proof (induction ds ps k n rule: clear_shift.induct)
  case (1 ds ps k n)
  show ?case
  proof (cases "k \<le> n")
    case False
    with "1.prems" have "ds' = ds" "ps' = ps" by (subst (asm) clear_shift.simps, simp)+
    with False show ?thesis by auto
  next
    case True
    with "1.prems" obtain d ds1 p ps1 where d: "arr_get ds (k + 1) = Some d"
      and ds1: "arr_set ds k d = Some ds1" and p: "arr_get ps (k + 1) = Some p"
      and ps1: "arr_set ps k p = Some ps1" and r: "clear_shift ds1 ps1 (k + 1) n = Some (ds', ps')"
      by (subst (asm) clear_shift.simps) (auto split: bind_splits)
    from d ds1 have kd: "0 \<le> k" "k + 1 < int (length ds)" and dv: "d = ds ! nat (k + 1)"
      and d1: "ds1 = ds[nat k := d]"
      by (simp_all add: arr_get_Some arr_set_Some)
    from p ps1 have kp: "k + 1 < int (length ps)" and pv: "p = ps ! nat (k + 1)"
      and p1: "ps1 = ps[nat k := p]"
      by (simp_all add: arr_get_Some arr_set_Some)
    from "1.IH" [OF True d ds1 p ps1 r]
    have ih: "length ds' = length ds1" "length ps' = length ps1"
      "k + 1 \<le> n \<longrightarrow> n + 1 < int (length ds1) \<and> n + 1 < int (length ps1)"
      "\<And>m. ds' ! m = (if k + 1 \<le> int m \<and> int m \<le> n then ds1 ! (m + 1) else ds1 ! m)"
      "\<And>m. ps' ! m = (if k + 1 \<le> int m \<and> int m \<le> n then ps1 ! (m + 1) else ps1 ! m)"
      by auto
    have bound: "n + 1 < int (length ds) \<and> n + 1 < int (length ps)"
    proof (cases "k + 1 \<le> n")
      case True with ih(3) d1 p1 show ?thesis by simp
    next
      case False with \<open>k \<le> n\<close> have "n = k" by simp
      with kd kp show ?thesis by simp
    qed
    have nth: "xs' ! m = (if k \<le> int m \<and> int m \<le> n then xs ! (m + 1) else xs ! m)"
      if x1: "xs1 = xs[nat k := xs ! nat (k + 1)]" and kx: "k + 1 < int (length xs)"
        and ihx: "\<And>m. xs' ! m = (if k + 1 \<le> int m \<and> int m \<le> n then xs1 ! (m + 1) else xs1 ! m)"
      for xs xs1 xs' :: "16 word list" and m
    proof -
      consider "int m = k" | "k + 1 \<le> int m" "int m \<le> n" | "int m < k" | "n < int m"
        by linarith
      then show ?thesis
      proof cases
        case 1
        then have "m = nat k" "Suc (nat k) = nat (k + 1)" "nat k < length xs"
          using kd kx by linarith+
        with 1 True show ?thesis by (simp add: ihx x1)
      next
        case 2
        then have "m + 1 \<noteq> nat k" "m \<noteq> nat k" using kd by linarith+
        with 2 show ?thesis by (simp add: ihx x1)
      next
        case 3
        then have "m \<noteq> nat k" using kd by linarith
        with 3 show ?thesis by (simp add: ihx x1)
      next
        case 4
        then have "m \<noteq> nat k" using kd True by linarith
        with 4 True show ?thesis by (simp add: ihx x1)
      qed
    qed
    have "\<forall>m. ds' ! m = (if k \<le> int m \<and> int m \<le> n then ds ! (m + 1) else ds ! m)"
      using nth [of ds1 ds ds'] d1 dv kd ih(4) by simp
    moreover have "\<forall>m. ps' ! m = (if k \<le> int m \<and> int m \<le> n then ps ! (m + 1) else ps ! m)"
      using nth [of ps1 ps ps'] p1 pv kp ih(5) by simp
    ultimately show ?thesis
      using ih(1,2) d1 p1 kd bound by simp
  qed
qed







lemma SetDelay_full:
  assumes "length (Delays s) = 10" "sint (imax s) = 10"
  shows "SetDelay (Some micro) arg2 s = None"
proof (rule ccontr)
  assume "SetDelay (Some micro) arg2 s \<noteq> None"
  then obtain s' where "SetDelay (Some micro) arg2 s = Some s'" by auto
  from SetDelay_Some [OF this] obtain ld j where j: "insert_index ld s = Some j"
    and jn: "j \<le> sint (imax s) \<longrightarrow> sint (imax s) < int (length (Delays s))"
    by auto
  from insert_index_Some [OF j] assms(2) have "j \<le> sint (imax s)" by simp
  with jn assms show False by simp
qed

lemma clear_shift_total:
  assumes "0 \<le> k" "n + 1 < int (length ds)" "n + 1 < int (length ps)"
  shows "\<exists>ds' ps'. clear_shift ds ps k n = Some (ds', ps')"
  using assms
proof (induction ds ps k n rule: clear_shift.induct)
  case (1 ds ps k n)
  show ?case
  proof (cases "k \<le> n")
    case False
    then show ?thesis by (subst clear_shift.simps) simp
  next
    case True
    have g: "arr_get ds (k + 1) = Some (ds ! nat (k + 1))"
      "arr_set ds k (ds ! nat (k + 1)) = Some (ds[nat k := ds ! nat (k + 1)])"
      "arr_get ps (k + 1) = Some (ps ! nat (k + 1))"
      "arr_set ps k (ps ! nat (k + 1)) = Some (ps[nat k := ps ! nat (k + 1)])"
      using True "1.prems" by (simp_all add: arr_get_def arr_set_def)
    from "1.IH" [OF True g] "1.prems"
    obtain ds' ps' where
      "clear_shift (ds[nat k := ds ! nat (k + 1)]) (ps[nat k := ps ! nat (k + 1)]) (k + 1) n = Some (ds', ps')"
      by auto
    then show ?thesis
      using True g by (subst clear_shift.simps) simp
  qed
qed

lemma ClearDelay_high:
  assumes "length (Delays s) = 10" "9 \<le> sint (imax s)"
    and "cstr_get cs 0 = Some c" "0 \<le> schar c - 65" "schar c - 65 < sint (imax s)"
  shows "ClearDelay (Some cs) s = None"
proof (rule ccontr)
  assume "ClearDelay (Some cs) s \<noteq> None"
  then obtain s' where "ClearDelay (Some cs) s = Some s'" by auto
  with assms(3-5) obtain ds ps where
    "clear_shift (Delays s) (DOut s) (schar c - 65) (sint (imax s)) = Some (ds, ps)"
    by (auto simp: ClearDelay_def split: bind_splits)
  from clear_shift_Some [OF this] assms(5) have "sint (imax s) + 1 < int (length (Delays s))"
    by simp
  with assms(1,2) show False by simp
qed

lemma ClearDelay_out_of_range:
  assumes "sint (imax s) \<le> int (length (Delays s))" "sint (imax s) \<le> int (length (DOut s))"
    and "cstr_get cs 0 = Some c" "schar c - 65 < 0 \<or> sint (imax s) \<le> schar c - 65"
  shows "\<exists>out. ClearDelay (Some cs) s = Some (s\<lparr>tx := tx s @ Text ''Not in range'' # out\<rparr>)"
proof -
  from ListDelays_total [of "s\<lparr>tx := tx s @ [Text ''Not in range'']\<rparr>"] assms(1,2)
  obtain rows where "list_rows (s\<lparr>tx := tx s @ [Text ''Not in range'']\<rparr>) 0 = Some rows"
    by (auto simp: ListDelays_def split: bind_splits)
  then show ?thesis
    using assms(3,4) by (auto simp: ClearDelay_def ListDelays_def)
qed

lemma ClearDelay_all:
  "ClearDelay None s =
     Some (s\<lparr>DOut := memset_0_9 (DOut s), Delays := memset_0_9 (Delays s), imax := 0,
             tx := tx s @ [Header, Text []]\<rparr>)"
  by (simp add: ClearDelay_def ListDelays_def list_rows.simps)

lemma ClearDelay_shift:
  assumes "length (Delays s) = 10" "length (DOut s) = 10" "sint (imax s) \<le> 8"
    and "cstr_get cs 0 = Some c" "0 \<le> schar c - 65" "schar c - 65 < sint (imax s)"
  shows "\<exists>s'. ClearDelay (Some cs) s = Some s' \<and> imax s' = imax s - 1 \<and>
           sint (imax s') = sint (imax s) - 1 \<and>
           (\<forall>m. int m < sint (imax s) - 1 \<longrightarrow>
              Delays s' ! m = (if schar c - 65 \<le> int m then Delays s ! (m + 1) else Delays s ! m) \<and>
              DOut s' ! m = (if schar c - 65 \<le> int m then DOut s ! (m + 1) else DOut s ! m))"
proof -
  define a where "a = schar c - 65"
  from clear_shift_total [of a "sint (imax s)" "Delays s" "DOut s"] assms
  obtain ds ps where cs: "clear_shift (Delays s) (DOut s) a (sint (imax s)) = Some (ds, ps)"
    by (auto simp: a_def)
  from clear_shift_Some [OF cs] have sh: "length ds = length (Delays s)" "length ps = length (DOut s)"
    "\<And>m. ds ! m = (if a \<le> int m \<and> int m \<le> sint (imax s) then Delays s ! (m + 1) else Delays s ! m)"
    "\<And>m. ps ! m = (if a \<le> int m \<and> int m \<le> sint (imax s) then DOut s ! (m + 1) else DOut s ! m)"
    by auto
  define s1 where "s1 = s\<lparr>Delays := ds, DOut := ps, imax := imax s - 1\<rparr>"
  have p: "sint (imax s - 1) = sint (imax s) - 1"
    using assms(5,6) by (intro sint_pred) simp
  from ListDelays_total [of s1] obtain out where l: "ListDelays s1 = Some (s1\<lparr>tx := out\<rparr>)"
    using assms(1-3) sh by (auto simp: s1_def p)
  have "ClearDelay (Some cs) s = Some (s1\<lparr>tx := out\<rparr>)"
    using assms(4-6) cs l by (simp add: ClearDelay_def a_def s1_def)
  then show ?thesis
    by (auto simp: s1_def p sh a_def)
qed








subsection \<open>The ordering invariant\<close>




subsection \<open>Insertion into a full list\<close>

text \<open>
  Claim C6 at a full list. \<open>SetDelay\<close> has no test of \<open>_imax\<close> against the size of the
  arrays: line 179 starts with \<open>Delays[10] = Delays[9]\<close>, a write behind the array.
  The operation is undefined; it reports nothing and does not leave the list as it
  was. This holds for every argument (\<open>SetDelay_full\<close>).
\<close>

theorem insert_into_full_list:
  "valid_list full_list \<and> count full_list = 10 \<and>
   SetDelay (Some (133 / 16)) None full_list = None"
proof -
  have "SetDelay (Some (133 / 16)) None full_list = None"
    by (rule SetDelay_full) (simp_all add: full_list_def builtin_def)
  then show ?thesis
    by (simp add: valid_list_def ascending_def count_def full_list_def builtin_def)
qed

subsection \<open>The default output pattern\<close>




subsection \<open>Removal\<close>

text \<open>
  Claim C8 at a full list and index 0 (the label \<open>A\<close>). The loop of line 151 runs
  \<open>k\<close> up to \<open>_imax\<close> itself and reads element \<open>k + 1\<close>: with ten entries it ends with
  \<open>Delays[10] = Delays[11]\<close>, outside the array, and already with nine entries it
  reads \<open>Delays[10]\<close> (\<open>ClearDelay_high\<close>). The other parts of the claim hold: an index
  out of range is reported and changes nothing (\<open>ClearDelay_out_of_range\<close>), \<open>C\<close>
  without an index always ends with \<open>_imax = 0\<close> (\<open>ClearDelay_all\<close>), and up to eight
  entries a valid index removes its entry (\<open>ClearDelay_shift\<close>).
\<close>

theorem remove_from_full_list:
  "valid_list full_list \<and> count full_list = 10 \<and>
   ClearDelay (Some ''A'') full_list = None"
proof -
  have "ClearDelay (Some ''A'') full_list = None"
    by (rule ClearDelay_high [where c = "CHR ''A''"])
      (simp_all add: full_list_def builtin_def cstr_get_def schar_def)
  then show ?thesis
    by (simp add: valid_list_def ascending_def count_def full_list_def builtin_def)
qed

section \<open>Properties of the persistence\<close>

lemma read_write_same: "EEPROM_readAnything (EEPROM_writeAnything ee pos v) pos = v"
proof -
  have "(ucast (ucast v :: 8 word) :: 16 word) OR push_bit 8 (ucast (ucast (drop_bit 8 v) :: 8 word)) = v"
    by (rule bit_word_eqI) (auto simp: bit_simps)
  then show ?thesis
    by (simp add: EEPROM_readAnything_def EEPROM_writeAnything_def)
qed

lemma read_write_other:
  "q + 1 < pos \<or> pos + 1 < q \<Longrightarrow>
   EEPROM_readAnything (EEPROM_writeAnything ee pos v) q = EEPROM_readAnything ee q"
  by (auto simp: EEPROM_readAnything_def EEPROM_writeAnything_def)

lemma read_cong:
  "ee' q = ee q \<Longrightarrow> ee' (q + 1) = ee (q + 1) \<Longrightarrow> EEPROM_readAnything ee' q = EEPROM_readAnything ee q"
  by (simp add: EEPROM_readAnything_def)

lemma write_below: "a < pos \<Longrightarrow> EEPROM_writeAnything ee pos v a = ee a"
  by (simp add: EEPROM_writeAnything_def)

lemma save_loop_Some:
  assumes "0 \<le> j" "sint (imax s) \<le> int (length (Delays s))" "sint (imax s) \<le> int (length (DOut s))"
  shows "\<exists>ee'. save_loop s ee j pos = Some ee' \<and> (\<forall>a < pos. ee' a = ee a) \<and>
           (\<forall>k. j \<le> k \<and> k < sint (imax s) \<longrightarrow>
              EEPROM_readAnything ee' (pos + 4 * nat (k - j)) = Delays s ! nat k \<and>
              EEPROM_readAnything ee' (pos + 4 * nat (k - j) + 2) = DOut s ! nat k)"
  using assms
proof (induction s ee j pos rule: save_loop.induct)
  case (1 s ee j pos)
  show ?case
  proof (cases "j < sint (imax s)")
    case False
    then show ?thesis by (subst save_loop.simps) force
  next
    case True
    define d where "d = Delays s ! nat j"
    define p where "p = DOut s ! nat j"
    define ee2 where "ee2 = EEPROM_writeAnything (EEPROM_writeAnything ee pos d) (pos + 2) p"
    have g: "arr_get (Delays s) j = Some d" "arr_get (DOut s) j = Some p"
      using True "1.prems" by (simp_all add: arr_get_def d_def p_def)
    from "1.IH" [OF True g] "1.prems"
    obtain ee' where r: "save_loop s ee2 (j + 1) (pos + 4) = Some ee'"
      and low: "\<And>a. a < pos + 4 \<Longrightarrow> ee' a = ee2 a"
      and ent: "\<And>k. j + 1 \<le> k \<Longrightarrow> k < sint (imax s) \<Longrightarrow>
          EEPROM_readAnything ee' (pos + 4 + 4 * nat (k - (j + 1))) = Delays s ! nat k \<and>
          EEPROM_readAnything ee' (pos + 4 + 4 * nat (k - (j + 1)) + 2) = DOut s ! nat k"
      unfolding ee2_def by auto
    have s: "save_loop s ee j pos = Some ee'"
      using True g r by (subst save_loop.simps) (simp add: ee2_def)
    have below: "ee' a = ee a" if "a < pos" for a
      using low [of a] that by (simp add: ee2_def write_below)
    have here: "EEPROM_readAnything ee' pos = d" "EEPROM_readAnything ee' (pos + 2) = p"
    proof -
      have "EEPROM_readAnything ee' pos = EEPROM_readAnything ee2 pos"
        by (rule read_cong) (simp_all add: low)
      also have "\<dots> = d"
        by (simp add: ee2_def read_write_other read_write_same)
      finally show "EEPROM_readAnything ee' pos = d" .
      have "EEPROM_readAnything ee' (pos + 2) = EEPROM_readAnything ee2 (pos + 2)"
        by (rule read_cong) (simp_all add: low)
      also have "\<dots> = p"
        by (simp add: ee2_def read_write_same)
      finally show "EEPROM_readAnything ee' (pos + 2) = p" .
    qed
    have entries: "EEPROM_readAnything ee' (pos + 4 * nat (k - j)) = Delays s ! nat k \<and>
        EEPROM_readAnything ee' (pos + 4 * nat (k - j) + 2) = DOut s ! nat k"
      if "j \<le> k" "k < sint (imax s)" for k
    proof (cases "k = j")
      case True
      with here show ?thesis by (simp add: d_def p_def)
    next
      case False
      with that have k: "j + 1 \<le> k" by simp
      then have "pos + 4 + 4 * nat (k - (j + 1)) = pos + 4 * nat (k - j)" by linarith
      with ent [OF k that(2)] show ?thesis by simp
    qed
    from s below entries show ?thesis by blast
  qed
qed

lemma load_loop_Some:
  assumes "0 \<le> j" "n \<le> int (length ds)" "n \<le> int (length ps)"
  shows "\<exists>ds' ps'. load_loop ee n ds ps j pos = Some (ds', ps') \<and>
           length ds' = length ds \<and> length ps' = length ps \<and>
           (\<forall>m. ds' ! m = (if j \<le> int m \<and> int m < n
                            then EEPROM_readAnything ee (pos + 4 * (m - nat j)) else ds ! m)) \<and>
           (\<forall>m. ps' ! m = (if j \<le> int m \<and> int m < n
                            then EEPROM_readAnything ee (pos + 4 * (m - nat j) + 2) else ps ! m))"
  using assms
proof (induction ee n ds ps j pos rule: load_loop.induct)
  case (1 ee n ds ps j pos)
  show ?case
  proof (cases "j < n")
    case False
    then show ?thesis by (subst load_loop.simps) force
  next
    case True
    define ds1 where "ds1 = ds[nat j := EEPROM_readAnything ee pos]"
    define ps1 where "ps1 = ps[nat j := EEPROM_readAnything ee (pos + 2)]"
    have g: "arr_set ds j (EEPROM_readAnything ee pos) = Some ds1"
      "arr_set ps j (EEPROM_readAnything ee (pos + 2)) = Some ps1"
      using True "1.prems" by (simp_all add: arr_set_def ds1_def ps1_def)
    from "1.IH" [OF True g] "1.prems"
    obtain ds' ps' where r: "load_loop ee n ds1 ps1 (j + 1) (pos + 4) = Some (ds', ps')"
      and len: "length ds' = length ds" "length ps' = length ps"
      and dn: "\<And>m. ds' ! m = (if j + 1 \<le> int m \<and> int m < n
                            then EEPROM_readAnything ee (pos + 4 + 4 * (m - nat (j + 1))) else ds1 ! m)"
      and pn: "\<And>m. ps' ! m = (if j + 1 \<le> int m \<and> int m < n
                            then EEPROM_readAnything ee (pos + 4 + 4 * (m - nat (j + 1)) + 2) else ps1 ! m)"
      by (auto simp: ds1_def ps1_def)
    have s: "load_loop ee n ds ps j pos = Some (ds', ps')"
      using True g r by (subst load_loop.simps) simp
    have jl: "nat j < length ds" "nat j < length ps"
      using True "1.prems" by linarith+
    have a: "pos + 4 + 4 * (m - nat (j + 1)) = pos + 4 * (m - nat j)" if "j + 1 \<le> int m" for m
      using that "1.prems"(1) by linarith
    have "ds' ! m = (if j \<le> int m \<and> int m < n
                            then EEPROM_readAnything ee (pos + 4 * (m - nat j)) else ds ! m)" for m
    proof (cases "int m = j")
      case True
      then have "m = nat j" by simp
      with True \<open>j < n\<close> jl show ?thesis by (simp add: dn ds1_def)
    next
      case False
      then have "m \<noteq> nat j" using "1.prems"(1) by linarith
      with False show ?thesis by (auto simp: dn ds1_def a)
    qed
    moreover have "ps' ! m = (if j \<le> int m \<and> int m < n
                            then EEPROM_readAnything ee (pos + 4 * (m - nat j) + 2) else ps ! m)" for m
    proof (cases "int m = j")
      case True
      then have "m = nat j" by simp
      with True \<open>j < n\<close> jl show ?thesis by (simp add: pn ps1_def)
    next
      case False
      then have "m \<noteq> nat j" using "1.prems"(1) by linarith
      with False show ?thesis by (auto simp: pn ps1_def a)
    qed
    ultimately show ?thesis using s len by blast
  qed
qed

text \<open>
  Claim C10. Let \<open>s\<close> hold a list with \<open>0 \<le> _imax \<le> 10\<close>. \<open>SaveDelays\<close> completes on
  any store, and \<open>LoadDelays\<close> from the store it leaves completes in any state \<open>t\<close> of
  the program: afterwards \<open>_imax\<close> and the first \<open>_imax\<close> elements of \<open>Delays\<close> and
  \<open>DOut\<close> are those of \<open>s\<close>.
\<close>

theorem save_load_roundtrip:
  assumes "0 \<le> sint (imax s)" "sint (imax s) \<le> 10"
    and "length (Delays s) = 10" "length (DOut s) = 10"
    and "length (Delays t) = 10" "length (DOut t) = 10"
  shows "\<exists>ee' t'. SaveDelays s ee = Some ee' \<and> LoadDelays ee' t = Some t' \<and>
           imax t' = imax s \<and>
           take (count s) (Delays t') = take (count s) (Delays s) \<and>
           take (count s) (DOut t') = take (count s) (DOut s)"
proof -
  define ee0 where "ee0 = EEPROM_writeAnything ee 0 (imax s)"
  from save_loop_Some [of 0 s ee0 2] assms
  obtain ee' where sv: "save_loop s ee0 0 2 = Some ee'"
    and low: "\<And>a. a < 2 \<Longrightarrow> ee' a = ee0 a"
    and ent: "\<And>k. 0 \<le> k \<Longrightarrow> k < sint (imax s) \<Longrightarrow>
        EEPROM_readAnything ee' (2 + 4 * nat k) = Delays s ! nat k \<and>
        EEPROM_readAnything ee' (2 + 4 * nat k + 2) = DOut s ! nat k"
    by auto
  have save: "SaveDelays s ee = Some ee'"
    using sv by (simp add: SaveDelays_def ee0_def)
  have "EEPROM_readAnything ee' 0 = EEPROM_readAnything ee0 0"
    by (rule read_cong) (simp_all add: low)
  then have n: "EEPROM_readAnything ee' 0 = imax s"
    by (simp add: ee0_def read_write_same)
  from load_loop_Some [of 0 "sint (imax s)" "Delays t" "DOut t" ee' 2] assms
  obtain ds' ps' where ld: "load_loop ee' (sint (imax s)) (Delays t) (DOut t) 0 2 = Some (ds', ps')"
    and len: "length ds' = 10" "length ps' = 10"
    and dn: "\<And>m. ds' ! m = (if int m < sint (imax s)
                            then EEPROM_readAnything ee' (2 + 4 * m) else Delays t ! m)"
    and pn: "\<And>m. ps' ! m = (if int m < sint (imax s)
                            then EEPROM_readAnything ee' (2 + 4 * m + 2) else DOut t ! m)"
    by auto
  define t' where "t' = t\<lparr>imax := imax s, Delays := ds', DOut := ps'\<rparr>"
  have load: "LoadDelays ee' t = Some t'"
    using ld by (simp add: LoadDelays_def n t'_def)
  have c: "count s \<le> 10" using assms by (simp add: count_def)
  have "take (count s) ds' = take (count s) (Delays s)"
  proof (rule nth_equalityI)
    show "length (take (count s) ds') = length (take (count s) (Delays s))"
      using c len assms by simp
  next
    fix m assume "m < length (take (count s) ds')"
    then have m: "m < count s" by simp
    then have "int m < sint (imax s)" by (simp add: count_def)
    with ent [of "int m"] dn [of m] m show "take (count s) ds' ! m = take (count s) (Delays s) ! m"
      by simp
  qed
  moreover have "take (count s) ps' = take (count s) (DOut s)"
  proof (rule nth_equalityI)
    show "length (take (count s) ps') = length (take (count s) (DOut s))"
      using c len assms by simp
  next
    fix m assume "m < length (take (count s) ps')"
    then have m: "m < count s" by simp
    then have "int m < sint (imax s)" by (simp add: count_def)
    with ent [of "int m"] pn [of m] m show "take (count s) ps' ! m = take (count s) (DOut s) ! m"
      by simp
  qed
  ultimately show ?thesis
    using save load by (simp add: t'_def)
qed

text \<open>
  The built-in schedule, saved to an erased store and loaded over the full list.
\<close>

theorem save_load_roundtrip_witness:
  "\<exists>ee' t'. SaveDelays builtin (\<lambda>a. 255) = Some ee' \<and> LoadDelays ee' full_list = Some t' \<and>
     imax t' = 4 \<and> take 4 (Delays t') = [13, 75, 149, 228] \<and> take 4 (DOut t') = [248, 0, 248, 0]"
  using save_load_roundtrip [of builtin full_list "\<lambda>a. 255"]
  by (simp add: builtin_def full_list_def count_def)

end
